theory Spec2Isabelle
  imports Complex_Main "HOL-Library.Log_Nat" "HOL-Library.Word"
begin

unbundle bit_operations_syntax

section \<open>C++ values\<close>

text \<open>
  The exercises compute on \<open>int\<close> (32 bits, two's complement) and \<open>double\<close> (IEEE 754
  binary64). An \<open>int\<close> is modelled as a mathematical integer together with the range check
  \<open>in_int\<close>: C++ leaves signed overflow, an out-of-range conversion from \<open>double\<close> and a
  read outside an array undefined, and the model returns an \<open>error\<close> at those points.
\<close>

datatype error = SignedOverflow | OutOfBounds | NullPointer | FloatToIntRange

definition in_int :: "int \<Rightarrow> bool" where
  "in_int x \<longleftrightarrow> - (2 ^ 31) \<le> x \<and> x < 2 ^ 31"

subsection \<open>binary64\<close>

text \<open>
  A \<open>double\<close> is a sign and a magnitude, an infinity with its sign, or NaN. The magnitude
  of a finite value is kept as the rational number it denotes, so that equality of model
  values is equality of the numbers (and of the sign of zero). Every operation computes
  the exact result and rounds it once, to nearest with ties to even, as IEEE 754
  prescribes for the default rounding mode.
\<close>

datatype double = Finite bool rat | Infinity bool | NaN

text \<open>\<open>ilog2 x\<close> is the exponent \<open>e\<close> with \<open>2^e \<le> x < 2^(e+1)\<close>, for positive \<open>x\<close>.\<close>

definition ilog2 :: "rat \<Rightarrow> int" where
  "ilog2 x = (if 1 \<le> x then bitlen \<lfloor>x\<rfloor> - 1 else - bitlen (\<lceil>1 / x\<rceil> - 1))"

text \<open>Rounding of a rational to the nearest integer, ties to the even one.\<close>

definition rne :: "rat \<Rightarrow> int" where
  "rne x = (let f = \<lfloor>x\<rfloor>; d = x - of_int f in
     if d < 1 / 2 then f else if 1 / 2 < d then f + 1 else if even f then f else f + 1)"

text \<open>
  The spacing of binary64 values around a positive \<open>x\<close>: 53 significant bits, and the
  fixed spacing \<open>2^-1074\<close> of the subnormal range below \<open>2^-1022\<close>.
\<close>

definition ulp :: "rat \<Rightarrow> rat" where
  "ulp x = 2 powi (max (ilog2 x) (- 1022) - 52)"

definition round_mag :: "rat \<Rightarrow> rat" where
  "round_mag x = of_int (rne (x / ulp x)) * ulp x"

text \<open>\<open>fround s x\<close> is the binary64 value nearest to the number of sign \<open>s\<close> and magnitude \<open>x\<close>.\<close>

definition fround :: "bool \<Rightarrow> rat \<Rightarrow> double" where
  "fround s x = (if x = 0 then Finite s 0
     else let r = round_mag x in if 2 ^ 1024 \<le> r then Infinity s else Finite s r)"

definition sval :: "bool \<Rightarrow> rat \<Rightarrow> rat" where
  "sval s m = (if s then - m else m)"

fun fneg :: "double \<Rightarrow> double" where
  "fneg (Finite s m) = Finite (\<not> s) m"
| "fneg (Infinity s) = Infinity (\<not> s)"
| "fneg NaN = NaN"

fun fadd :: "double \<Rightarrow> double \<Rightarrow> double" where
  "fadd (Finite s1 m1) (Finite s2 m2) =
     (let r = sval s1 m1 + sval s2 m2 in
      if r = 0 then Finite (s1 \<and> s2) 0 else fround (r < 0) \<bar>r\<bar>)"
| "fadd (Finite s1 m1) (Infinity s2) = Infinity s2"
| "fadd (Infinity s1) (Finite s2 m2) = Infinity s1"
| "fadd (Infinity s1) (Infinity s2) = (if s1 = s2 then Infinity s1 else NaN)"
| "fadd NaN y = NaN"
| "fadd x NaN = NaN"

definition fsub :: "double \<Rightarrow> double \<Rightarrow> double" where
  "fsub x y = fadd x (fneg y)"

fun fmul :: "double \<Rightarrow> double \<Rightarrow> double" where
  "fmul (Finite s1 m1) (Finite s2 m2) = fround (s1 \<noteq> s2) (m1 * m2)"
| "fmul (Finite s1 m1) (Infinity s2) = (if m1 = 0 then NaN else Infinity (s1 \<noteq> s2))"
| "fmul (Infinity s1) (Finite s2 m2) = (if m2 = 0 then NaN else Infinity (s1 \<noteq> s2))"
| "fmul (Infinity s1) (Infinity s2) = Infinity (s1 \<noteq> s2)"
| "fmul NaN y = NaN"
| "fmul x NaN = NaN"

fun fdiv :: "double \<Rightarrow> double \<Rightarrow> double" where
  "fdiv (Finite s1 m1) (Finite s2 m2) =
     (if m2 = 0 then (if m1 = 0 then NaN else Infinity (s1 \<noteq> s2))
      else fround (s1 \<noteq> s2) (m1 / m2))"
| "fdiv (Finite s1 m1) (Infinity s2) = Finite (s1 \<noteq> s2) 0"
| "fdiv (Infinity s1) (Finite s2 m2) = Infinity (s1 \<noteq> s2)"
| "fdiv (Infinity s1) (Infinity s2) = NaN"
| "fdiv NaN y = NaN"
| "fdiv x NaN = NaN"

text \<open>Conversions between the integer types and \<open>double\<close>.\<close>

definition double_of_int :: "int \<Rightarrow> double" where
  "double_of_int n = fround (n < 0) (of_int \<bar>n\<bar>)"

definition double_of_uint64 :: "64 word \<Rightarrow> double" where
  "double_of_uint64 w = fround False (of_nat (unat w))"

text \<open>
  \<open>double\<close> to \<open>int\<close> drops the fractional part; the conversion is undefined when the
  result does not fit, and for infinities and NaN.
\<close>

fun trunc :: "double \<Rightarrow> int" where
  "trunc (Finite s m) = (if s then - \<lfloor>m\<rfloor> else \<lfloor>m\<rfloor>)"
| "trunc (Infinity s) = 0"
| "trunc NaN = 0"

fun fits_int :: "double \<Rightarrow> bool" where
  "fits_int (Finite s m) = in_int (trunc (Finite s m))"
| "fits_int (Infinity s) = False"
| "fits_int NaN = False"

definition int_of_double :: "double \<Rightarrow> error + int" where
  "int_of_double d = (if fits_int d then Inr (trunc d) else Inl FloatToIntRange)"

text \<open>
  \<open>pow\<close> of the C library, at the arguments the polynomial benchmark gives it: two
  \<open>int\<close>s, the second one a loop index, both converted to \<open>double\<close> without loss. It is
  taken to return the power rounded to the nearest \<open>double\<close>.
\<close>

definition pow :: "int \<Rightarrow> nat \<Rightarrow> double" where
  "pow alpha i = fround (alpha ^ i < 0) (of_int \<bar>alpha ^ i\<bar>)"

definition is_inf_or_nan :: "double \<Rightarrow> bool" where
  "is_inf_or_nan x = (case x of Finite s m \<Rightarrow> False | Infinity s \<Rightarrow> True | NaN \<Rightarrow> True)"

section \<open>EvalPerf.hpp\<close>

text \<open>
  The probe. \<open>init\<close> and \<open>end\<close> are readings of the steady clock, in nanoseconds; the
  three cycle fields are \<open>double\<close>s, as the struct declares them. The readings of the clock
  and of the time-stamp counter come from the machine and are arguments of \<open>start\<close> and
  \<open>stop\<close>.
\<close>

record EvalPerf =
  init :: int
  end' :: int
  elapsed_s :: double
  elapsed_ms :: double
  nb_c0 :: double
  nb_c1 :: double
  nb_tot :: double

text \<open>\<open>rdtsc\<close> joins the two 32-bit halves the instruction leaves in \<open>edx:eax\<close>.\<close>

definition rdtsc :: "32 word \<Rightarrow> 32 word \<Rightarrow> 64 word" where
  "rdtsc lo hi = push_bit 32 (ucast hi) OR ucast lo"

definition start :: "int \<Rightarrow> 64 word \<Rightarrow> EvalPerf \<Rightarrow> EvalPerf" where
  "start now tsc pe = pe\<lparr>init := now, nb_c0 := double_of_uint64 tsc\<rparr>"

definition stop :: "64 word \<Rightarrow> int \<Rightarrow> EvalPerf \<Rightarrow> EvalPerf" where
  "stop tsc now pe = pe\<lparr>nb_c1 := double_of_uint64 tsc, end' := now\<rparr>"

text \<open>\<open>nb_c\<close> stores the difference in \<open>nb_tot\<close> and returns it converted to \<open>int\<close>.\<close>

definition nb_c :: "EvalPerf \<Rightarrow> error + (int \<times> EvalPerf)" where
  "nb_c pe =
     (let pe' = pe\<lparr>nb_tot := fsub (nb_c1 pe) (nb_c0 pe)\<rparr> in
      case int_of_double (nb_tot pe') of
        Inl e \<Rightarrow> Inl e
      | Inr v \<Rightarrow> Inr (v, pe'))"

text \<open>
  \<open>duration_cast\<close> to \<open>duration<double>\<close> converts the nanosecond count to \<open>double\<close> and
  divides by \<open>1e9\<close>.
\<close>

definition nb_s :: "EvalPerf \<Rightarrow> double \<times> EvalPerf" where
  "nb_s pe =
     (let pe' = pe\<lparr>elapsed_s := fdiv (double_of_int (end' pe - init pe)) (double_of_int 1000000000)\<rparr>
      in (elapsed_s pe', pe'))"

definition nb_ms :: "EvalPerf \<Rightarrow> double" where
  "nb_ms pe = fmul (elapsed_s pe) (double_of_int 1000)"

definition cpi :: "EvalPerf \<Rightarrow> int \<Rightarrow> double" where
  "cpi pe N = fdiv (double_of_int N) (nb_tot pe)"

definition ipc :: "EvalPerf \<Rightarrow> int \<Rightarrow> double" where
  "ipc pe N = fdiv (nb_tot pe) (double_of_int N)"

section \<open>tp2_exo5.cpp: prefix sum\<close>

text \<open>
  \<open>for (int i=1; i < n; i++) B[i] = B[i] + B[i-1];\<close> on the array \<open>B\<close>, a list of the
  \<open>int\<close>s it holds. \<open>n\<close> is the \<open>int\<close> the caller passes and need not be the length.
\<close>

function ma_fonction_loop :: "int list \<Rightarrow> int \<Rightarrow> nat \<Rightarrow> error + int list" where
  "ma_fonction_loop B n i =
     (if int i < n then
        (if 0 < i \<and> i < length B then
           (let v = B ! i + B ! (i - 1) in
            if in_int v then ma_fonction_loop (B[i := v]) n (Suc i)
            else Inl SignedOverflow)
         else Inl OutOfBounds)
      else Inr B)"
  by pat_completeness auto
termination
  by (relation "measure (\<lambda>(B, n, i). nat (n - int i))") auto

definition ma_fonction :: "int list \<Rightarrow> int \<Rightarrow> error + int list" where
  "ma_fonction B n = ma_fonction_loop B n 1"

definition flops_ma_fonction :: "int \<Rightarrow> int" where
  "flops_ma_fonction n = n"

section \<open>tp2_exo6.cpp: polynomial evaluation\<close>

text \<open>
  \<open>res += p[i] * pow(alpha, i)\<close>: the product and the sum are computed in \<open>double\<close> and
  the sum is converted back to \<open>int\<close>.
\<close>

function ma_fonction_naive_loop :: "int list \<Rightarrow> int \<Rightarrow> int \<Rightarrow> nat \<Rightarrow> int \<Rightarrow> error + int" where
  "ma_fonction_naive_loop p n alpha i res =
     (if int i < n then
        (if i < length p then
           (let d = fadd (double_of_int res) (fmul (double_of_int (p ! i)) (pow alpha i)) in
            if fits_int d then ma_fonction_naive_loop p n alpha (Suc i) (trunc d)
            else Inl FloatToIntRange)
         else Inl OutOfBounds)
      else Inr res)"
  by pat_completeness auto
termination
  by (relation "measure (\<lambda>(p, n, alpha, i, res). nat (n - int i))") auto

definition ma_fonction_naive :: "int list \<Rightarrow> int \<Rightarrow> int \<Rightarrow> error + int" where
  "ma_fonction_naive p n alpha = ma_fonction_naive_loop p n alpha 0 0"

definition flops_ma_fonction_naive :: "int \<Rightarrow> error + int" where
  "flops_ma_fonction_naive n = (if in_int (3 * n) then Inr (3 * n) else Inl SignedOverflow)"

text \<open>\<open>for (int i=1; i<=n; i++) res += res * alpha + p[n-i];\<close>\<close>

function ma_fonction_horner_loop :: "int list \<Rightarrow> int \<Rightarrow> int \<Rightarrow> nat \<Rightarrow> int \<Rightarrow> error + int" where
  "ma_fonction_horner_loop p n alpha i res =
     (if int i \<le> n then
        (if nat (n - int i) < length p then
           (let m = res * alpha;
                t = m + p ! nat (n - int i);
                r = res + t in
            if in_int m \<and> in_int t \<and> in_int r \<and> in_int (int i + 1)
            then ma_fonction_horner_loop p n alpha (Suc i) r
            else Inl SignedOverflow)
         else Inl OutOfBounds)
      else Inr res)"
  by pat_completeness auto
termination
  by (relation "measure (\<lambda>(p, n, alpha, i, res). nat (n + 1 - int i))") auto

definition ma_fonction_horner :: "int list \<Rightarrow> int \<Rightarrow> int \<Rightarrow> error + int" where
  "ma_fonction_horner p n alpha = ma_fonction_horner_loop p n alpha 1 0"

definition flops_ma_fonction_horner :: "int \<Rightarrow> error + int" where
  "flops_ma_fonction_horner n = (if in_int (2 * n) then Inr (2 * n) else Inl SignedOverflow)"

section \<open>The drivers' start-up\<close>

text \<open>
  \<open>argv\<close> is the list of the \<open>argc\<close> strings of the command line, the program name
  first. The C++ runtime stores a null pointer at \<open>argv[argc]\<close>; what lies beyond is
  outside the array.
\<close>

definition arg :: "string list \<Rightarrow> nat \<Rightarrow> error + string" where
  "arg argv k =
     (if k < length argv then Inr (argv ! k)
      else if k = length argv then Inl NullPointer
      else Inl OutOfBounds)"

text \<open>
  \<open>atoi\<close> of the C library: leading white space, an optional sign, then decimal digits
  up to the first other character. A value that is not an \<open>int\<close> is undefined.
\<close>

definition is_space :: "char \<Rightarrow> bool" where
  "is_space c \<longleftrightarrow> c \<in> set [CHR '' '', CHR 0x09, CHR 0x0A, CHR 0x0B, CHR 0x0C, CHR 0x0D]"

definition is_digit :: "char \<Rightarrow> bool" where
  "is_digit c \<longleftrightarrow> 48 \<le> (of_char c :: nat) \<and> (of_char c :: nat) \<le> 57"

fun atoi_digits :: "string \<Rightarrow> int \<Rightarrow> int" where
  "atoi_digits [] acc = acc"
| "atoi_digits (c # cs) acc =
     (if is_digit c then atoi_digits cs (10 * acc + (int (of_char c) - 48)) else acc)"

definition atoi :: "string \<Rightarrow> error + int" where
  "atoi s =
     (let t = dropWhile is_space s;
          r = (case t of
                 [] \<Rightarrow> 0
               | c # u \<Rightarrow>
                   if c = CHR ''-'' then - atoi_digits u 0
                   else if c = CHR ''+'' then atoi_digits u 0
                   else atoi_digits t 0)
      in if in_int r then Inr r else Inl SignedOverflow)"

definition atoi_arg :: "string list \<Rightarrow> nat \<Rightarrow> error + int" where
  "atoi_arg argv k = (case arg argv k of Inl e \<Rightarrow> Inl e | Inr s \<Rightarrow> atoi s)"

text \<open>
  What \<open>main\<close> does before its benchmark loop: either it prints the usage message and
  returns a status, or it has read its numeric arguments and the name of the output file
  and goes on to the trials, after which it returns 0. The arrays declared between the
  two reads, and the trials themselves, are left out.
\<close>

datatype startup = Usage string int | Trials "int list" string

definition usage_exo5 :: string where
  "usage_exo5 = ''You must enter the following details:'' @ [CHR 0x0A] @
     ''min max array_size number_of_loops output_file'' @ [CHR 0x0A]"

definition main_exo5 :: "string list \<Rightarrow> error + startup" where
  "main_exo5 argv =
     (if int (length argv) < 2 then Inr (Usage usage_exo5 (- 1))
      else case atoi_arg argv 1 of Inl e \<Rightarrow> Inl e | Inr min' \<Rightarrow>
           case atoi_arg argv 2 of Inl e \<Rightarrow> Inl e | Inr max' \<Rightarrow>
           case atoi_arg argv 3 of Inl e \<Rightarrow> Inl e | Inr array_size \<Rightarrow>
           case atoi_arg argv 4 of Inl e \<Rightarrow> Inl e | Inr number_of_loops \<Rightarrow>
           case arg argv 5 of Inl e \<Rightarrow> Inl e | Inr file \<Rightarrow>
           Inr (Trials [min', max', array_size, number_of_loops] file))"

definition usage_exo6 :: string where
  "usage_exo6 = ''You must enter the following details:'' @ [CHR 0x0A] @
     ''min max array_size number_of_loops alpha output_file'' @ [CHR 0x0A]"

definition main_exo6 :: "string list \<Rightarrow> error + startup" where
  "main_exo6 argv =
     (if int (length argv) < 2 then Inr (Usage usage_exo6 (- 1))
      else case atoi_arg argv 1 of Inl e \<Rightarrow> Inl e | Inr min' \<Rightarrow>
           case atoi_arg argv 2 of Inl e \<Rightarrow> Inl e | Inr max' \<Rightarrow>
           case atoi_arg argv 3 of Inl e \<Rightarrow> Inl e | Inr array_size \<Rightarrow>
           case atoi_arg argv 4 of Inl e \<Rightarrow> Inl e | Inr number_of_loops \<Rightarrow>
           case atoi_arg argv 5 of Inl e \<Rightarrow> Inl e | Inr alpha \<Rightarrow>
           case arg argv 6 of Inl e \<Rightarrow> Inl e | Inr file \<Rightarrow>
           Inr (Trials [min', max', array_size, number_of_loops, alpha] file))"

section \<open>Specification functions\<close>

text \<open>
  \<open>running_totals B i\<close> is the array \<open>B\<close> with each of its first \<open>i\<close> elements replaced by
  the sum of the elements up to and including it: what the prefix sum is expected to
  have produced once it has handled the indices below \<open>i\<close>.
\<close>

definition running_totals :: "int list \<Rightarrow> nat \<Rightarrow> int list" where
  "running_totals B i =
     map (\<lambda>k. if k < i then sum_list (take (Suc k) B) else B ! k) [0..<length B]"

text \<open>The value at \<open>x\<close> of the polynomial with coefficients \<open>p\<close>, lowest degree first.\<close>

fun poly_eval :: "int list \<Rightarrow> int \<Rightarrow> int" where
  "poly_eval [] x = 0"
| "poly_eval (c # cs) x = c + x * poly_eval cs x"

text \<open>
  A probe with zeros in every field: one of the states in which the declaration
  \<open>EvalPerf PE;\<close>, which initialises nothing, may leave the object.
\<close>

definition probe0 :: EvalPerf where
  "probe0 = \<lparr>init = 0, end' = 0, elapsed_s = Finite False 0, elapsed_ms = Finite False 0,
     nb_c0 = Finite False 0, nb_c1 = Finite False 0, nb_tot = Finite False 0\<rparr>"

section \<open>Exact cases of the rounding\<close>

lemma rne_of_int [simp]: "rne (of_int j) = j"
  by (simp add: rne_def)

lemma ilog2_of_int: "0 < k \<Longrightarrow> ilog2 (of_int k) = bitlen k - 1"
  by (simp add: ilog2_def)

lemma ulp_pos: "0 < ulp x"
  by (simp add: ulp_def)

lemma ulp_nz [simp]: "ulp x \<noteq> 0"
  by (simp add: ulp_def)

lemma powi_neg: "0 \<le> m \<Longrightarrow> (2::rat) powi (- m) = 1 / 2 ^ nat m"
  by (simp add: power_int_minus_divide power_int_nonneg_exp)

text \<open>A number that is a whole multiple of the spacing around it is not changed.\<close>

lemma round_mag_exact:
  assumes "x / ulp x = of_int j"
  shows "round_mag x = x"
proof -
  have "round_mag x = (x / ulp x) * ulp x"
    unfolding round_mag_def assms by simp
  also have "\<dots> = x"
    by simp
  finally show ?thesis .
qed

lemma bitlen_le_53: "0 < k \<Longrightarrow> k < 2 ^ 53 \<Longrightarrow> bitlen k \<le> 53"
  by (simp add: bitlen_le_iff_power)

lemma ulp_of_int_small:
  assumes "0 < k" "k < 2 ^ 53"
  shows "ulp (of_int k) = 1 / 2 ^ nat (53 - bitlen k)"
proof -
  have b: "1 \<le> bitlen k" "bitlen k \<le> 53"
    using assms bitlen_le_53 [OF assms] bitlen_ge_iff_power [of 1 k] by auto
  have e: "max (ilog2 (rat_of_int k)) (- 1022) - 52 = - (53 - bitlen k)"
    using b assms by (simp add: ilog2_of_int)
  have "ulp (of_int k) = 2 powi (- (53 - bitlen k))"
    unfolding ulp_def e by (rule refl)
  also have "\<dots> = 1 / 2 ^ nat (53 - bitlen k)"
    by (rule powi_neg) (use b in simp)
  finally show ?thesis .
qed

text \<open>Every integer up to \<open>2^53\<close> is a \<open>double\<close>.\<close>

lemma round_mag_of_int:
  assumes "0 < k" "k \<le> 2 ^ 53"
  shows "round_mag (of_int k) = of_int k"
proof (cases "k = 2 ^ 53")
  case True
  have "bitlen ((2::int) ^ 53) = 54"
    using bitlen_pow2 [of 1 53] by (simp add: compute_bitlen [of 1])
  then have "ilog2 (rat_of_int k) = 53"
    using ilog2_of_int [of k] True by simp
  then have "ulp (of_int k) = 2"
    unfolding ulp_def by simp
  then have "of_int k / ulp (of_int k) = of_int (2 ^ 52)"
    using True by simp
  then show ?thesis by (rule round_mag_exact)
next
  case False
  then have lt: "k < 2 ^ 53" using assms by simp
  have "of_int k / ulp (of_int k) = (of_int (k * 2 ^ nat (53 - bitlen k)) :: rat)"
    by (simp add: ulp_of_int_small [OF assms(1) lt])
  then show ?thesis by (rule round_mag_exact)
qed

lemma fround_of_int:
  assumes "0 \<le> k" "k \<le> 2 ^ 53"
  shows "fround s (of_int k) = Finite s (of_int k)"
proof (cases "k = 0")
  case True
  then show ?thesis by (simp add: fround_def)
next
  case False
  then have pos: "0 < k" using assms by simp
  have "(of_int k :: rat) \<le> of_int (2 ^ 53)"
    using assms(2) of_int_le_iff by blast
  then have "(of_int k :: rat) < 2 ^ 1024"
    by simp
  then show ?thesis
    using pos by (simp add: fround_def round_mag_of_int [OF pos assms(2)] Let_def)
qed

lemma fround_numeral:
  "numeral n \<le> (2::int) ^ 53 \<Longrightarrow> fround s (numeral n) = Finite s (numeral n)"
  using fround_of_int [of "numeral n" s] by simp

lemma fround_one: "fround s 1 = Finite s 1"
  using fround_of_int [of 1 s] by simp

lemma fround_zero: "fround s 0 = Finite s 0"
  by (simp add: fround_def)

lemmas eval_simps = fround_numeral fround_one fround_zero double_of_int_def pow_def
  double_of_uint64_def sval_def in_int_def Let_def fsub_def int_of_double_def

section \<open>General properties of the rounding\<close>

lemma ilog2_bounds:
  assumes "0 < x"
  shows "2 powi (ilog2 x) \<le> x \<and> x < 2 powi (ilog2 x + 1)"
proof (cases "1 \<le> x")
  case True
  define k where "k = \<lfloor>x\<rfloor>"
  have k: "1 \<le> k" "of_int k \<le> x" "x < of_int (k + 1)"
    using True unfolding k_def by (simp add: le_floor_iff, linarith, linarith)
  have b: "1 \<le> bitlen k"
    using k(1) bitlen_ge_iff_power [of 1 k] by simp
  have bb: "2 ^ nat (bitlen k - 1) \<le> k" "k < 2 ^ nat (bitlen k)"
    using bitlen_bounds [of k] k(1) by auto
  have e: "ilog2 x = bitlen k - 1"
    using True by (simp add: ilog2_def k_def)
  have "(2::rat) powi (bitlen k - 1) = of_int (2 ^ nat (bitlen k - 1))"
    using b by (simp add: power_int_nonneg_exp)
  also have "\<dots> \<le> of_int k"
    using bb(1) of_int_le_iff by blast
  finally have lo: "2 powi (ilog2 x) \<le> x"
    using k(2) e by simp
  have "k + 1 \<le> 2 ^ nat (bitlen k)" using bb(2) by simp
  then have "(of_int (k + 1) :: rat) \<le> of_int (2 ^ nat (bitlen k))"
    using of_int_le_iff by blast
  also have "\<dots> = 2 powi (bitlen k)"
    using b by (simp add: power_int_nonneg_exp)
  finally have hi: "x < 2 powi (ilog2 x + 1)"
    using k(3) e by simp
  from lo hi show ?thesis ..
next
  case False
  define y where "y = 1 / x"
  define m where "m = \<lceil>y\<rceil> - 1"
  have y: "1 < y" "x = 1 / y" "0 < y"
    using False assms unfolding y_def by simp_all
  have m: "of_int m < y" "y \<le> of_int (m + 1)"
    unfolding m_def by (simp, linarith, simp)
  have m1: "1 \<le> m"
    using y(1) unfolding m_def by (simp add: less_ceiling_iff)
  have b: "1 \<le> bitlen m"
    using m1 bitlen_ge_iff_power [of 1 m] by simp
  have bb: "2 ^ nat (bitlen m - 1) \<le> m" "m < 2 ^ nat (bitlen m)"
    using bitlen_bounds [of m] m1 by auto
  have e: "ilog2 x = - bitlen m"
    using False by (simp add: ilog2_def m_def y_def)
  have "m + 1 \<le> 2 ^ nat (bitlen m)" using bb(2) by simp
  then have "(of_int (m + 1) :: rat) \<le> of_int (2 ^ nat (bitlen m))"
    using of_int_le_iff by blast
  then have "y \<le> 2 ^ nat (bitlen m)"
    using m(2) by simp
  then have "1 / 2 ^ nat (bitlen m) \<le> 1 / y"
    using y(3) by (simp add: frac_le)
  moreover have "(2::rat) powi (- bitlen m) = 1 / 2 ^ nat (bitlen m)"
    by (rule powi_neg) (use b in simp)
  ultimately have lo: "2 powi (ilog2 x) \<le> x"
    using e y(2) by simp
  have "(2::rat) ^ nat (bitlen m - 1) = of_int (2 ^ nat (bitlen m - 1))"
    by simp
  also have "\<dots> \<le> of_int m"
    using bb(1) of_int_le_iff by blast
  also have "\<dots> < y"
    by (rule m(1))
  finally have "2 ^ nat (bitlen m - 1) < y" .
  then have "1 / y < 1 / 2 ^ nat (bitlen m - 1)"
    by (simp add: frac_less2)
  moreover have "(2::rat) powi (- (bitlen m - 1)) = 1 / 2 ^ nat (bitlen m - 1)"
    by (rule powi_neg) (use b in simp)
  moreover have "ilog2 x + 1 = - (bitlen m - 1)"
    using e by simp
  ultimately have hi: "x < 2 powi (ilog2 x + 1)"
    using y(2) by simp
  from lo hi show ?thesis ..
qed

lemma ilog2_unique:
  assumes "2 powi e \<le> x" "x < 2 powi (e + 1)"
  shows "ilog2 x = e"
proof -
  have "(0::rat) < 2 powi e" by simp
  with assms(1) have pos: "0 < x" by linarith
  note b = ilog2_bounds [OF pos]
  have "\<not> ilog2 x + 1 \<le> e"
  proof
    assume "ilog2 x + 1 \<le> e"
    then have "(2::rat) powi (ilog2 x + 1) \<le> 2 powi e"
      by (rule power_int_increasing) simp
    with b assms(1) show False by simp
  qed
  moreover have "\<not> e + 1 \<le> ilog2 x"
  proof
    assume "e + 1 \<le> ilog2 x"
    then have "(2::rat) powi (e + 1) \<le> 2 powi (ilog2 x)"
      by (rule power_int_increasing) simp
    with b assms(2) show False by simp
  qed
  ultimately show ?thesis by simp
qed

lemma rne_bounds: "of_int (rne y) \<le> y + 1 / 2 \<and> y - 1 / 2 \<le> of_int (rne y)"
proof -
  define f where "f = \<lfloor>y\<rfloor>"
  have a: "of_int f \<le> y" "y < of_int f + 1"
    unfolding f_def by linarith+
  consider "y - of_int f < 1 / 2" | "1 / 2 < y - of_int f" | "y - of_int f = 1 / 2"
    by linarith
  then show ?thesis
  proof cases
    case 1
    then have "rne y = f" by (simp add: rne_def f_def Let_def)
    with 1 a show ?thesis by simp
  next
    case 2
    then have "rne y = f + 1" by (simp add: rne_def f_def Let_def)
    with 2 a show ?thesis by simp
  next
    case 3
    then have "rne y = f \<or> rne y = f + 1" by (simp add: rne_def f_def Let_def)
    with 3 a show ?thesis by auto
  qed
qed

lemma fround_half: "fround s (1 / 2) = Finite s (1 / 2)"
proof -
  have "ilog2 (1 / 2) = - 1"
    by (rule ilog2_unique) (simp_all add: power_int_minus_divide)
  then have u: "ulp (1 / 2) = 1 / 2 ^ 53"
    unfolding ulp_def by (simp add: power_int_minus_divide)
  have "(1 / 2) / ulp (1 / 2) = of_int (2 ^ 52)"
    unfolding u by simp
  then have "round_mag (1 / 2) = 1 / 2"
    by (rule round_mag_exact)
  then show ?thesis
    by (simp add: fround_def)
qed

lemma fround_tie: "fround False 9007199254740993 = Finite False 9007199254740992"
proof -
  have "bitlen 9007199254740993 = 54" by code_simp
  then have "ilog2 9007199254740993 = 53"
    using ilog2_of_int [of 9007199254740993] by simp
  then have "ulp 9007199254740993 = 2"
    unfolding ulp_def by simp
  moreover have "\<lfloor>(9007199254740993::rat) / 2\<rfloor> = 4503599627370496"
    by (rule floor_unique) simp_all
  ultimately have "round_mag 9007199254740993 = 9007199254740992"
    unfolding round_mag_def by (simp add: rne_def Let_def)
  then show ?thesis
    by (simp add: fround_def)
qed

lemma double_of_int_exact:
  "\<bar>n\<bar> \<le> 2 ^ 53 \<Longrightarrow> double_of_int n = Finite (n < 0) (of_int \<bar>n\<bar>)"
  unfolding double_of_int_def by (rule fround_of_int) simp_all

lemma double_of_uint64_exact:
  assumes "uint w \<le> 2 ^ 53"
  shows "double_of_uint64 w = Finite False (of_int (uint w))"
proof -
  have "(of_nat (unat w) :: rat) = of_int (uint w)"
    by simp
  then show ?thesis
    unfolding double_of_uint64_def using fround_of_int [of "uint w" False] assms by simp
qed

lemma fsub_of_int:
  assumes "0 \<le> a" "a \<le> b" "b \<le> 2 ^ 53"
  shows "fsub (Finite False (of_int b)) (Finite False (of_int a)) = Finite False (of_int (b - a))"
proof (cases "a = b")
  case True
  then show ?thesis by (simp add: fsub_def sval_def)
next
  case False
  with assms have d: "0 < b - a" "b - a \<le> 2 ^ 53" by auto
  have r: "(of_int b :: rat) - of_int a = of_int (b - a)" by simp
  have pos: "(0::rat) < of_int (b - a)" using d(1) by simp
  have "fsub (Finite False (of_int b)) (Finite False (of_int a)) = fround False (of_int (b - a))"
    using pos unfolding fsub_def by (simp add: sval_def Let_def r del: of_int_diff)
  also have "\<dots> = Finite False (of_int (b - a))"
    by (rule fround_of_int) (use d in auto)
  finally show ?thesis .
qed

lemma double_of_int_zero: "double_of_int 0 = Finite False 0"
  by (simp add: double_of_int_def fround_def)

lemma round_mag_half_ulp: "\<bar>round_mag x - x\<bar> \<le> ulp x / 2"
proof -
  define y where "y = x / ulp x"
  have x: "x = y * ulp x" unfolding y_def by simp
  have "\<bar>of_int (rne y) - y\<bar> \<le> 1 / 2"
    using rne_bounds [of y] by linarith
  then have "\<bar>of_int (rne y) - y\<bar> * ulp x \<le> (1 / 2) * ulp x"
    using ulp_pos [of x] by (simp add: mult_right_mono)
  moreover have "\<bar>of_int (rne y) - y\<bar> * ulp x = \<bar>of_int (rne y) * ulp x - y * ulp x\<bar>"
    using ulp_pos [of x] by (simp add: abs_mult left_diff_distrib [symmetric])
  moreover have "round_mag x = of_int (rne y) * ulp x"
    by (simp add: round_mag_def y_def)
  ultimately show ?thesis
    using x by simp
qed

lemma round_mag_nonneg:
  assumes "0 \<le> x"
  shows "0 \<le> round_mag x"
proof -
  have "0 \<le> x / ulp x" using assms ulp_pos [of x] by simp
  then have "- 1 < (of_int (rne (x / ulp x)) :: rat)"
    using rne_bounds [of "x / ulp x"] by linarith
  then have "0 \<le> rne (x / ulp x)"
    by linarith
  then show ?thesis
    using ulp_pos [of x] by (simp add: round_mag_def)
qed

lemma ilog2_ge:
  assumes "2 powi e \<le> x"
  shows "e \<le> ilog2 x"
proof (rule ccontr)
  have "(0::rat) < 2 powi e" by simp
  with assms have pos: "0 < x" by linarith
  assume "\<not> e \<le> ilog2 x"
  then have "ilog2 x + 1 \<le> e" by simp
  then have "(2::rat) powi (ilog2 x + 1) \<le> 2 powi e"
    by (rule power_int_increasing) simp
  with ilog2_bounds [OF pos] assms show False by simp
qed

lemma round_mag_rel:
  assumes "2 powi (- 1022) \<le> x"
  shows "\<bar>round_mag x - x\<bar> \<le> x / 2 ^ 53"
proof -
  have "(0::rat) < 2 powi (- 1022)" by simp
  with assms have pos: "0 < x" by linarith
  have e: "- 1022 \<le> ilog2 x" using assms by (rule ilog2_ge)
  then have "ulp x = 2 powi (ilog2 x - 52)"
    by (simp add: ulp_def max_def)
  also have "\<dots> = 2 powi (ilog2 x) / 2 ^ 52"
    by (simp add: power_int_diff)
  also have "\<dots> \<le> x / 2 ^ 52"
    using ilog2_bounds [OF pos] by (simp add: divide_right_mono)
  finally have "ulp x / 2 \<le> x / 2 ^ 53" by simp
  with round_mag_half_ulp [of x] show ?thesis by linarith
qed

lemma fround_rel:
  assumes "2 powi (- 1022) \<le> x" "x \<le> 2 ^ 1000"
  shows "\<exists>m. fround s x = Finite s m \<and> \<bar>m - x\<bar> \<le> x / 2 ^ 53"
proof -
  have "(0::rat) < 2 powi (- 1022)" by simp
  with assms have pos: "0 < x" by linarith
  have r: "\<bar>round_mag x - x\<bar> \<le> x / 2 ^ 53"
    using assms(1) by (rule round_mag_rel)
  have "x / 2 ^ 53 \<le> x" using pos by (simp add: field_simps)
  with r have "round_mag x \<le> 2 * x" by linarith
  also have "\<dots> \<le> 2 * 2 ^ 1000" using assms(2) by simp
  also have "\<dots> < (2::rat) ^ 1024" by simp
  finally have "\<not> 2 ^ 1024 \<le> round_mag x" by simp
  then have "fround s x = Finite s (round_mag x)"
    using pos by (simp add: fround_def Let_def)
  with r show ?thesis by blast
qed

lemma round_near_one:
  assumes "(1 - 1 / 2 ^ 53) ^ 2 \<le> p" "p \<le> (1 + 1 / 2 ^ 53) ^ 2"
  shows "\<bar>round_mag p - 1\<bar> \<le> 1 / 2 ^ 52"
proof (cases "1 \<le> p")
  case True
  have "((1 + 1 / 2 ^ 53) ^ 2 :: rat) < 2"
    by (simp add: power2_eq_square)
  with assms(2) have "p < 2" by linarith
  then have "ilog2 p = 0"
    using True by (intro ilog2_unique) simp_all
  then have u: "ulp p = 1 / 2 ^ 52"
    unfolding ulp_def by (simp add: power_int_minus_divide)
  define k where "k = rne (p / ulp p)"
  have y: "p / ulp p = p * 2 ^ 52" unfolding u by simp
  have b: "of_int k \<le> p * 2 ^ 52 + 1 / 2" "p * 2 ^ 52 - 1 / 2 \<le> of_int k"
    using rne_bounds [of "p / ulp p"] unfolding k_def y by auto
  have "p * 2 ^ 52 \<le> (1 + 1 / 2 ^ 53) ^ 2 * 2 ^ 52"
    using assms(2) by (rule mult_right_mono) simp
  also have "\<dots> < 4503599627370497 + 1 / 2"
    by (simp add: power2_eq_square)
  finally have "(of_int k :: rat) < 4503599627370498"
    using b(1) by linarith
  then have hi: "k \<le> 4503599627370497" by simp
  have "(4503599627370496 :: rat) \<le> p * 2 ^ 52"
    using True by simp
  then have "(4503599627370495 :: rat) < of_int k"
    using b(2) by linarith
  then have lo: "4503599627370496 \<le> k" by simp
  have r: "round_mag p = of_int k / 2 ^ 52"
    unfolding round_mag_def by (fold k_def) (simp add: u)
  have "(of_int k :: rat) \<le> 4503599627370497" "(4503599627370496 :: rat) \<le> of_int k"
    using hi lo by simp_all
  then show ?thesis
    unfolding r by (simp add: abs_le_iff field_simps)
next
  case False
  have "(1 / 2 :: rat) \<le> (1 - 1 / 2 ^ 53) ^ 2"
    by (simp add: power2_eq_square)
  with assms(1) have "1 / 2 \<le> p" by linarith
  then have "ilog2 p = - 1"
    using False by (intro ilog2_unique) (simp_all add: power_int_minus_divide)
  then have u: "ulp p = 1 / 2 ^ 53"
    unfolding ulp_def by (simp add: power_int_minus_divide)
  define k where "k = rne (p / ulp p)"
  have y: "p / ulp p = p * 2 ^ 53" unfolding u by simp
  have b: "of_int k \<le> p * 2 ^ 53 + 1 / 2" "p * 2 ^ 53 - 1 / 2 \<le> of_int k"
    using rne_bounds [of "p / ulp p"] unfolding k_def y by auto
  have "(9007199254740989 :: rat) < (1 - 1 / 2 ^ 53) ^ 2 * 2 ^ 53 - 1 / 2"
    by (simp add: power2_eq_square)
  also have "\<dots> \<le> p * 2 ^ 53 - 1 / 2"
    using mult_right_mono [OF assms(1), of "2 ^ 53"] by simp
  finally have "(9007199254740989 :: rat) < of_int k"
    using b(2) by linarith
  then have lo: "9007199254740990 \<le> k" by simp
  from False have "p < 1" by simp
  then have "p * 2 ^ 53 < 1 * 2 ^ 53"
    by (rule mult_strict_right_mono) simp
  then have "p * 2 ^ 53 < 9007199254740992"
    by simp
  then have "(of_int k :: rat) < 9007199254740993"
    using b(1) by linarith
  then have hi: "k \<le> 9007199254740992" by simp
  have r: "round_mag p = of_int k / 2 ^ 53"
    unfolding round_mag_def by (fold k_def) (simp add: u)
  have "(of_int k :: rat) \<le> 9007199254740992" "(9007199254740990 :: rat) \<le> of_int k"
    using hi lo by simp_all
  then show ?thesis
    unfolding r by (simp add: abs_le_iff field_simps)
qed

lemma fmul_fdiv_reciprocal:
  assumes "1 \<le> n" "n \<le> 2 ^ 32" "1 \<le> t" "t \<le> 2 ^ 32"
  shows "\<exists>v. fmul (fdiv (Finite s1 n) (Finite s2 t)) (fdiv (Finite s2 t) (Finite s1 n))
              = Finite False v \<and> \<bar>v - 1\<bar> \<le> 1 / 2 ^ 52"
proof -
  define u :: rat where "u = 1 / 2 ^ 53"
  define a where "a = n / t"
  define b where "b = t / n"
  have small: "(2::rat) powi (- 1022) \<le> 1 / 2 ^ 32"
    by (simp add: power_int_minus_divide)
  have ab: "a * b = 1" "0 < a" "0 < b"
    using assms by (simp_all add: a_def b_def)
  have "1 / 2 ^ 32 \<le> a" "1 / 2 ^ 32 \<le> b"
    unfolding a_def b_def by (rule frac_le; use assms in simp)+
  moreover have "n / t \<le> 2 ^ 32 / 1" "t / n \<le> 2 ^ 32 / 1"
    by (rule frac_le; use assms in simp)+
  then have "a \<le> 2 ^ 32" "b \<le> 2 ^ 32"
    by (simp_all add: a_def b_def)
  ultimately have ra: "2 powi (- 1022) \<le> a" "a \<le> 2 ^ 1000"
    and rb: "2 powi (- 1022) \<le> b" "b \<le> 2 ^ 1000"
    using small by (auto intro: order_trans)
  obtain m1 where m1: "fround (s1 \<noteq> s2) a = Finite (s1 \<noteq> s2) m1" "\<bar>m1 - a\<bar> \<le> a / 2 ^ 53"
    using fround_rel [OF ra] by blast
  obtain m2 where m2: "fround (s2 \<noteq> s1) b = Finite (s2 \<noteq> s1) m2" "\<bar>m2 - b\<bar> \<le> b / 2 ^ 53"
    using fround_rel [OF rb] by blast
  have d1: "fdiv (Finite s1 n) (Finite s2 t) = Finite (s1 \<noteq> s2) m1"
    using assms m1(1) by (simp add: a_def)
  have d2: "fdiv (Finite s2 t) (Finite s1 n) = Finite (s2 \<noteq> s1) m2"
    using assms m2(1) by (simp add: b_def)
  have ex: "x * (1 - u) = x - x / 2 ^ 53" "x * (1 + u) = x + x / 2 ^ 53" for x
    by (simp_all add: u_def algebra_simps)
  have b1: "a * (1 - u) \<le> m1" "m1 \<le> a * (1 + u)"
    unfolding ex using m1(2) by linarith+
  have b2: "b * (1 - u) \<le> m2" "m2 \<le> b * (1 + u)"
    unfolding ex using m2(2) by linarith+
  have u: "0 < 1 - u" "0 < 1 + u" by (simp_all add: u_def)
  have pos: "0 \<le> a * (1 - u)" "0 \<le> b * (1 - u)" "0 \<le> m1" "0 \<le> m2"
    using ab u b1 b2 by (auto intro: order_trans [of 0 "a * (1 - u)"] order_trans [of 0 "b * (1 - u)"])
  have "(a * (1 - u)) * (b * (1 - u)) \<le> m1 * m2"
    using b1(1) b2(1) pos by (intro mult_mono) simp_all
  moreover have "(a * (1 - u)) * (b * (1 - u)) = (a * b) * (1 - u) ^ 2"
    by (simp add: power2_eq_square)
  ultimately have lo: "(1 - 1 / 2 ^ 53) ^ 2 \<le> m1 * m2"
    using ab(1) by (simp add: u_def)
  have "m1 * m2 \<le> (a * (1 + u)) * (b * (1 + u))"
    using b1(2) b2(2) pos ab u by (intro mult_mono) simp_all
  moreover have "(a * (1 + u)) * (b * (1 + u)) = (a * b) * (1 + u) ^ 2"
    by (simp add: power2_eq_square)
  ultimately have hi: "m1 * m2 \<le> (1 + 1 / 2 ^ 53) ^ 2"
    using ab(1) by (simp add: u_def)
  have near: "\<bar>round_mag (m1 * m2) - 1\<bar> \<le> 1 / 2 ^ 52"
    using lo hi by (rule round_near_one)
  have "(0::rat) < (1 - 1 / 2 ^ 53) ^ 2" by simp
  with lo have nz: "m1 * m2 \<noteq> 0" by linarith
  have "round_mag (m1 * m2) \<le> 1 + 1 / 2 ^ 52"
    using near by linarith
  also have "\<dots> < (2::rat) ^ 1024" by simp
  finally have "\<not> 2 ^ 1024 \<le> round_mag (m1 * m2)" by simp
  then have "fround False (m1 * m2) = Finite False (round_mag (m1 * m2))"
    using nz by (simp add: fround_def Let_def)
  moreover have "((s1 \<noteq> s2) \<noteq> (s2 \<noteq> s1)) = False" by auto
  ultimately have "fmul (Finite (s1 \<noteq> s2) m1) (Finite (s2 \<noteq> s1) m2)
      = Finite False (round_mag (m1 * m2))"
    by simp
  with near show ?thesis
    unfolding d1 d2 by blast
qed

lemma fround_nonneg_cases:
  assumes "0 \<le> x"
  shows "fround s x = Infinity s \<or> (\<exists>m. 0 \<le> m \<and> fround s x = Finite s m)"
  using round_mag_nonneg [OF assms] by (auto simp add: fround_def Let_def)

lemma fsub_stored_readings:
  assumes "fsub (double_of_uint64 b) (double_of_uint64 a) = Finite s t"
  shows "0 \<le> t"
proof -
  have xb: "double_of_uint64 b = Infinity False \<or> (\<exists>m. 0 \<le> m \<and> double_of_uint64 b = Finite False m)"
    unfolding double_of_uint64_def by (rule fround_nonneg_cases) (rule of_nat_0_le_iff)
  have xa: "double_of_uint64 a = Infinity False \<or> (\<exists>m. 0 \<le> m \<and> double_of_uint64 a = Finite False m)"
    unfolding double_of_uint64_def by (rule fround_nonneg_cases) (rule of_nat_0_le_iff)
  from xb xa assms obtain mb ma where
    m: "double_of_uint64 b = Finite False mb" "double_of_uint64 a = Finite False ma"
    by (auto simp add: fsub_def)
  define r where "r = mb - ma"
  show ?thesis
  proof (cases "r = 0")
    case True
    with assms show ?thesis
      unfolding m by (simp add: fsub_def sval_def r_def)
  next
    case False
    with assms have "fround (r < 0) \<bar>r\<bar> = Finite s t"
      unfolding m by (simp add: fsub_def sval_def r_def Let_def)
    with fround_nonneg_cases [of "\<bar>r\<bar>" "r < 0"] show ?thesis
      by auto
  qed
qed

section \<open>The probe\<close>

lemma nb_c_small_readings:
  assumes "a \<le> b" "uint b \<le> 2 ^ 53" "uint b - uint a < 2 ^ 31"
  shows "nb_c (stop b t1 (start t0 a pe)) =
         Inr (uint b - uint a,
              (stop b t1 (start t0 a pe))\<lparr>nb_tot := Finite False (of_int (uint b - uint a))\<rparr>)"
proof -
  have le: "uint a \<le> uint b" using assms(1) by (simp add: word_le_def)
  have a: "double_of_uint64 a = Finite False (of_int (uint a))"
    by (rule double_of_uint64_exact) (use le assms(2) in simp)
  have b: "double_of_uint64 b = Finite False (of_int (uint b))"
    by (rule double_of_uint64_exact) (rule assms(2))
  have d: "fsub (double_of_uint64 b) (double_of_uint64 a) = Finite False (of_int (uint b - uint a))"
    unfolding a b by (rule fsub_of_int) (use le assms(2) in simp_all)
  have fits: "in_int (uint b - uint a)"
    using le assms(3) by (simp add: in_int_def)
  show ?thesis
    using fits by (simp add: nb_c_def stop_def start_def d int_of_double_def Let_def del: of_int_diff)
qed

text \<open>
  C6, as the code has it. The cycle fields are \<open>double\<close>s and \<open>nb_c\<close> returns an
  \<open>int\<close>: for two readings \<open>a \<le> b\<close> of at most \<open>2^53\<close> whose difference is below \<open>2^31\<close>,
  \<open>nb_c\<close> returns exactly \<open>b - a\<close> and stores it in \<open>nb_tot\<close>.
\<close>

theorem nb_c_exact:
  assumes "a \<le> b" "uint b \<le> 2 ^ 53" "uint b - uint a < 2 ^ 31"
  shows "nb_c (stop b t1 (start t0 a pe)) =
         Inr (uint b - uint a,
              (stop b t1 (start t0 a pe))\<lparr>nb_tot := Finite False (of_int (uint b - uint a))\<rparr>)"
  using assms by (rule nb_c_small_readings)

theorem nb_c_exact_witness:
  "map_sum id fst (nb_c (stop 200 7 (start 3 100 probe0))) = Inr 100"
  using nb_c_exact [of 100 200 7 3 probe0] by simp

text \<open>
  C6 fails beyond those bounds. The readings \<open>2^53\<close> and \<open>2^53 + 1\<close> are stored as the
  same \<open>double\<close> and \<open>nb_c\<close> returns 0 for a difference of 1; a difference of \<open>2^31\<close> has
  no \<open>int\<close> to be returned in.
\<close>

theorem nb_c_loses_cycles:
  "map_sum id fst (nb_c (stop (2 ^ 53 + 1) 7 (start 3 (2 ^ 53) probe0))) = Inr 0 \<and>
   uint (2 ^ 53 + 1 :: 64 word) - uint (2 ^ 53 :: 64 word) = 1 \<and>
   nb_c (stop (2 ^ 31) 7 (start 3 0 probe0)) = Inl FloatToIntRange"
  by (simp add: nb_c_def stop_def start_def probe0_def eval_simps fround_tie)

text \<open>
  C2, as the code has it. \<open>cpi\<close> and \<open>ipc\<close> read the field \<open>nb_tot\<close>, which only \<open>nb_c\<close>
  writes. Once \<open>nb_c\<close> has returned for the interval, \<open>nb_tot\<close> is the difference of the
  two stored readings, the value \<open>nb_c\<close> returned is its conversion to \<open>int\<close>, \<open>cpi(N)\<close> is
  \<open>N / nb_tot\<close> and \<open>ipc(N)\<close> is \<open>nb_tot / N\<close>.
\<close>

theorem cpi_ipc_formulas:
  assumes "nb_c (stop b t1 (start t0 a pe)) = Inr (c, pe')"
  shows "nb_tot pe' = fsub (double_of_uint64 b) (double_of_uint64 a) \<and>
         int_of_double (nb_tot pe') = Inr c \<and>
         cpi pe' N = fdiv (double_of_int N) (nb_tot pe') \<and>
         ipc pe' N = fdiv (nb_tot pe') (double_of_int N)"
  using assms
  by (auto simp add: nb_c_def stop_def start_def cpi_def ipc_def Let_def split: sum.splits)

theorem cpi_ipc_formulas_witness:
  "nb_tot (snd (projr (nb_c (stop 200 7 (start 3 100 probe0))))) = Finite False 100 \<and>
   cpi (snd (projr (nb_c (stop 200 7 (start 3 100 probe0))))) 200 = Finite False 2 \<and>
   ipc (snd (projr (nb_c (stop 200 7 (start 3 100 probe0))))) 200 = Finite False (1 / 2)"
proof -
  have e: "nb_c (stop 200 7 (start 3 100 probe0)) =
      Inr (100, (stop 200 7 (start 3 100 probe0))\<lparr>nb_tot := Finite False 100\<rparr>)"
    using nb_c_small_readings [of 100 200 7 3 probe0] by simp
  show ?thesis
    using cpi_ipc_formulas [OF e, of 200]
    by (simp add: e eval_simps fround_half)
qed

text \<open>
  C2 fails for an interval on which \<open>nb_c\<close> has not been called: after a first interval of
  100 cycles (readings 100 and 200) read with \<open>nb_c\<close>, and a second interval of 200 cycles
  (readings 300 and 500), \<open>cpi(200)\<close> is \<open>200 / 100 = 2\<close>, not \<open>200 / 200 = 1\<close>.
\<close>

theorem cpi_uses_stale_delta:
  "cpi (stop 500 9 (start 8 300 (snd (projr (nb_c (stop 200 7 (start 3 100 probe0))))))) 200
     = Finite False 2 \<and>
   fdiv (double_of_int 200) (fsub (double_of_uint64 500) (double_of_uint64 300)) = Finite False 1"
proof -
  have e: "nb_c (stop 200 7 (start 3 100 probe0)) =
      Inr (100, (stop 200 7 (start 3 100 probe0))\<lparr>nb_tot := Finite False 100\<rparr>)"
    using nb_c_small_readings [of 100 200 7 3 probe0] by simp
  show ?thesis
    unfolding e by (simp add: cpi_def stop_def start_def eval_simps)
qed

text \<open>
  C3, as the code has it. Once \<open>nb_c\<close> has returned a cycle count other than zero for
  the interval, the product \<open>cpi(N) * ipc(N)\<close>, for an operation count \<open>N\<close> other than
  zero, is a finite \<open>double\<close> within \<open>2^-52\<close> (the machine epsilon of \<open>double\<close>) of 1.
\<close>

theorem cpi_times_ipc:
  assumes "nb_c (stop b t1 (start t0 a pe)) = Inr (c, pe')" "c \<noteq> 0" "N \<noteq> 0" "in_int N"
  shows "\<exists>v. fmul (cpi pe' N) (ipc pe' N) = Finite False v \<and> \<bar>v - 1\<bar> \<le> 1 / 2 ^ 52"
proof -
  define D where "D = fsub (double_of_uint64 b) (double_of_uint64 a)"
  from assms(1) have tot: "nb_tot pe' = D" and fits: "fits_int D" and c: "trunc D = c"
    by (auto simp add: nb_c_def stop_def start_def D_def Let_def int_of_double_def
        split: if_splits)
  from fits obtain s t where D: "D = Finite s t"
    by (cases D) simp_all
  have t0: "0 \<le> t"
    using D unfolding D_def by (rule fsub_stored_readings)
  then have f0: "0 \<le> \<lfloor>t\<rfloor>" by simp
  from c assms(2) D have "\<lfloor>t\<rfloor> \<noteq> 0" by (auto split: if_splits)
  with f0 have "1 \<le> \<lfloor>t\<rfloor>" by linarith
  then have t1: "1 \<le> t" using le_floor_iff [of 1 t] by simp
  from fits D f0 have "\<lfloor>t\<rfloor> \<le> 2 ^ 31"
    by (auto simp add: in_int_def split: if_splits)
  then have "t < 2 ^ 31 + 1"
    by (simp add: floor_le_iff)
  then have t2: "t \<le> 2 ^ 32" by simp
  define n :: rat where "n = of_int \<bar>N\<bar>"
  have "\<bar>N\<bar> \<le> 2 ^ 53"
    using assms(4) by (simp add: in_int_def abs_le_iff)
  then have N: "double_of_int N = Finite (N < 0) n"
    unfolding n_def by (rule double_of_int_exact)
  have "1 \<le> \<bar>N\<bar>" "\<bar>N\<bar> \<le> 2 ^ 31"
    using assms(3,4) by (simp_all add: in_int_def abs_le_iff)
  then have "(of_int 1 :: rat) \<le> of_int \<bar>N\<bar>" "(of_int \<bar>N\<bar> :: rat) \<le> of_int (2 ^ 31)"
    using of_int_le_iff by blast+
  then have n: "1 \<le> n" "n \<le> 2 ^ 32"
    by (simp_all add: n_def)
  show ?thesis
    unfolding cpi_def ipc_def tot D N
    using n t1 t2 by (rule fmul_fdiv_reciprocal)
qed

theorem cpi_times_ipc_witness:
  "\<exists>v. fmul (cpi ((stop 200 7 (start 3 100 probe0))\<lparr>nb_tot := Finite False 100\<rparr>) 3)
              (ipc ((stop 200 7 (start 3 100 probe0))\<lparr>nb_tot := Finite False 100\<rparr>) 3)
         = Finite False v \<and> \<bar>v - 1\<bar> \<le> 1 / 2 ^ 52"
proof -
  have e: "nb_c (stop 200 7 (start 3 100 probe0)) =
      Inr (100, (stop 200 7 (start 3 100 probe0))\<lparr>nb_tot := Finite False 100\<rparr>)"
    using nb_c_small_readings [of 100 200 7 3 probe0] by simp
  show ?thesis
    by (rule cpi_times_ipc [OF e]) (simp_all add: in_int_def)
qed

text \<open>
  C3 fails when \<open>nb_tot\<close> is zero while the cycle count of the interval is not: on an
  interval of 200 cycles (readings 300 and 500) that follows an empty one read with
  \<open>nb_c\<close> and is not read itself, and, with \<open>nb_c\<close> called, on the readings
  \<open>2^53\<close> and \<open>2^53 + 1\<close>, which are stored as the same \<open>double\<close>, the product is
  \<open>inf * 0\<close>, NaN.
\<close>

theorem cpi_times_ipc_nan:
  "fmul (cpi (stop 500 9 (start 8 300 (snd (projr (nb_c (stop 100 7 (start 3 100 probe0))))))) 5)
        (ipc (stop 500 9 (start 8 300 (snd (projr (nb_c (stop 100 7 (start 3 100 probe0))))))) 5)
     = NaN \<and>
   fmul (cpi (snd (projr (nb_c (stop (2 ^ 53 + 1) 7 (start 3 (2 ^ 53) probe0))))) 5)
        (ipc (snd (projr (nb_c (stop (2 ^ 53 + 1) 7 (start 3 (2 ^ 53) probe0))))) 5)
     = NaN"
proof -
  have e: "nb_c (stop 100 7 (start 3 100 probe0)) =
      Inr (0, (stop 100 7 (start 3 100 probe0))\<lparr>nb_tot := Finite False 0\<rparr>)"
    using nb_c_small_readings [of 100 100 7 3 probe0] by simp
  have e2: "nb_c (stop (2 ^ 53 + 1) 7 (start 3 (2 ^ 53) probe0)) =
      Inr (0, (stop (2 ^ 53 + 1) 7 (start 3 (2 ^ 53) probe0))\<lparr>nb_tot := Finite False 0\<rparr>)"
    by (simp add: nb_c_def stop_def start_def probe0_def eval_simps fround_tie)
  show ?thesis
    unfolding e e2 by (simp add: cpi_def ipc_def stop_def start_def eval_simps)
qed

text \<open>
  C4, as the code has it. \<open>nb_ms\<close> multiplies the field \<open>elapsed_s\<close>, which only \<open>nb_s\<close>
  writes: once \<open>nb_s\<close> has been called, \<open>nb_ms\<close> returns the value \<open>nb_s\<close> returned times
  1000, and calling \<open>nb_s\<close> again changes nothing; in any state \<open>nb_ms\<close> is the stored
  \<open>elapsed_s\<close> times 1000.
\<close>

theorem nb_ms_after_nb_s:
  "nb_ms (snd (nb_s pe)) = fmul (fst (nb_s pe)) (double_of_int 1000) \<and>
   nb_s (snd (nb_s pe)) = nb_s pe \<and>
   nb_ms pe = fmul (elapsed_s pe) (double_of_int 1000)"
  by (simp add: nb_ms_def nb_s_def Let_def)

text \<open>
  C4 fails when \<open>nb_ms\<close> is called first: after an interval of one second read with
  \<open>nb_s\<close>, and a second interval of two seconds, \<open>nb_ms\<close> returns 1000 while \<open>nb_s\<close> times
  1000 is 2000.
\<close>

theorem nb_ms_before_nb_s:
  "nb_ms (stop 500 3000000000 (start 1000000000 300
       (snd (nb_s (stop 200 1000000000 (start 0 100 probe0))))))
     = Finite False 1000 \<and>
   fmul (fst (nb_s (stop 500 3000000000 (start 1000000000 300
       (snd (nb_s (stop 200 1000000000 (start 0 100 probe0)))))))) (double_of_int 1000)
     = Finite False 2000"
  by (simp add: nb_ms_def nb_s_def stop_def start_def probe0_def eval_simps)

text \<open>
  C5, as the code has it. Both accessors return a \<open>double\<close> and raise nothing. \<open>ipc(0)\<close>
  divides by zero and is an infinity or NaN in every state. \<open>cpi(0)\<close> divides zero by
  \<open>nb_tot\<close>: it is NaN exactly when \<open>nb_tot\<close> is a zero or NaN, and a zero otherwise (the
  zero with the sign of \<open>nb_tot\<close>).
\<close>

theorem metrics_at_zero:
  "is_inf_or_nan (ipc pe 0) \<and>
   (cpi pe 0 = NaN) = (nb_tot pe = NaN \<or> (\<exists>s. nb_tot pe = Finite s 0)) \<and>
   (cpi pe 0 = NaN \<or> (\<exists>s. cpi pe 0 = Finite s 0)) \<and>
   cpi pe 0 =
     (case nb_tot pe of
        Finite s m \<Rightarrow> if m = 0 then NaN else Finite s 0
      | Infinity s \<Rightarrow> Finite s 0
      | NaN \<Rightarrow> NaN)"
  by (cases "nb_tot pe")
    (auto simp add: ipc_def cpi_def double_of_int_zero is_inf_or_nan_def fround_def)

text \<open>
  C5 fails for \<open>cpi\<close>: after an interval of 100 cycles read with \<open>nb_c\<close>, \<open>cpi(0)\<close> is
  \<open>0 / 100 = 0\<close>.
\<close>

theorem cpi_zero_is_finite:
  "cpi (snd (projr (nb_c (stop 200 7 (start 3 100 probe0))))) 0 = Finite False 0"
proof -
  have e: "nb_c (stop 200 7 (start 3 100 probe0)) =
      Inr (100, (stop 200 7 (start 3 100 probe0))\<lparr>nb_tot := Finite False 100\<rparr>)"
    using nb_c_small_readings [of 100 200 7 3 probe0] by simp
  show ?thesis
    unfolding e by (simp add: cpi_def double_of_int_zero fround_def)
qed

section \<open>The prefix sum\<close>

lemma length_running_totals [simp]: "length (running_totals B i) = length B"
  by (simp add: running_totals_def)

lemma nth_running_totals:
  "k < length B \<Longrightarrow>
   running_totals B i ! k = (if k < i then sum_list (take (Suc k) B) else B ! k)"
  by (simp add: running_totals_def)

lemma running_totals_Suc:
  assumes "0 < i" "i < length B"
  shows "(running_totals B i)[i := running_totals B i ! i + running_totals B i ! (i - 1)]
         = running_totals B (Suc i)"
proof (rule nth_equalityI)
  show "length ((running_totals B i)[i := running_totals B i ! i + running_totals B i ! (i - 1)])
        = length (running_totals B (Suc i))"
    by simp
next
  fix k
  assume "k < length ((running_totals B i)[i := running_totals B i ! i + running_totals B i ! (i - 1)])"
  then have k: "k < length B" by simp
  have step: "B ! i + sum_list (take i B) = sum_list (take (Suc i) B)"
    using assms by (simp add: take_Suc_conv_app_nth)
  show "(running_totals B i)[i := running_totals B i ! i + running_totals B i ! (i - 1)] ! k
        = running_totals B (Suc i) ! k"
  proof (cases "k = i")
    case True
    then show ?thesis
      using assms step by (simp add: nth_running_totals)
  next
    case False
    then show ?thesis
      using k by (auto simp add: nth_running_totals)
  qed
qed

lemma running_totals_one: "running_totals B (Suc 0) = B"
  by (rule nth_equalityI) (auto simp add: nth_running_totals take_Suc_conv_app_nth)

text \<open>The loop invariant: before iteration \<open>i\<close> the array is \<open>running_totals B i\<close>.\<close>

lemma ma_fonction_loop_running_totals:
  assumes "0 < i" "n \<le> int (length B)"
    and "\<forall>k. i \<le> k \<and> int k < n \<longrightarrow> in_int (sum_list (take (Suc k) B))"
  shows "ma_fonction_loop (running_totals B i) n i = Inr (running_totals B (max i (nat n)))"
  using assms
proof (induction "nat (n - int i)" arbitrary: i)
  case 0
  then have "\<not> int i < n" by simp
  moreover from this have "max i (nat n) = i" by simp
  ultimately show ?case
    by (simp add: ma_fonction_loop.simps [of _ n i])
next
  case (Suc d)
  then have lt: "int i < n" and il: "i < length B" by auto
  let ?A = "running_totals B i"
  have v: "?A ! i + ?A ! (i - 1) = sum_list (take (Suc i) B)"
    using Suc.prems(1) il by (simp add: nth_running_totals take_Suc_conv_app_nth)
  have ok: "in_int (?A ! i + ?A ! (i - 1))"
    using Suc.prems(3) lt unfolding v by simp
  have "ma_fonction_loop ?A n i = ma_fonction_loop (?A[i := ?A ! i + ?A ! (i - 1)]) n (Suc i)"
    using lt il Suc.prems(1) ok by (subst ma_fonction_loop.simps) (simp add: Let_def)
  also have "\<dots> = ma_fonction_loop (running_totals B (Suc i)) n (Suc i)"
    by (simp only: running_totals_Suc [OF Suc.prems(1) il])
  also have "\<dots> = Inr (running_totals B (max (Suc i) (nat n)))"
  proof (rule Suc.hyps(1))
    show "d = nat (n - int (Suc i))" using Suc.hyps(2) by simp
    show "0 < Suc i" by simp
    show "n \<le> int (length B)" by (rule Suc.prems(2))
    show "\<forall>k. Suc i \<le> k \<and> int k < n \<longrightarrow> in_int (sum_list (take (Suc k) B))"
      using Suc.prems(3) by simp
  qed
  also have "max (Suc i) (nat n) = max i (nat n)"
    using lt by simp
  finally show ?case .
qed

text \<open>
  C7. The prefix sum replaces each of the first \<open>n\<close> elements of the array by the running
  total of the elements up to and including it, and leaves the others as they are: for an
  array that holds at least \<open>n\<close> elements and whose running totals are all \<open>int\<close>s, the
  call returns, with that array. For \<open>[1,2,3,4]\<close> the array afterwards is \<open>[1,3,6,10]\<close>.
\<close>

theorem ma_fonction_prefix_sum:
  assumes "n \<le> int (length B)"
    and "\<forall>k. 0 < k \<and> int k < n \<longrightarrow> in_int (sum_list (take (Suc k) B))"
  shows "ma_fonction B n =
         Inr (map (\<lambda>k. if int k < n then sum_list (take (Suc k) B) else B ! k) [0..<length B])"
proof -
  have "ma_fonction B n = ma_fonction_loop (running_totals B (Suc 0)) n (Suc 0)"
    by (simp add: ma_fonction_def running_totals_one)
  also have "\<dots> = Inr (running_totals B (max (Suc 0) (nat n)))"
    by (rule ma_fonction_loop_running_totals) (use assms in auto)
  also have "running_totals B (max (Suc 0) (nat n)) =
      map (\<lambda>k. if int k < n then sum_list (take (Suc k) B) else B ! k) [0..<length B]"
    unfolding running_totals_def
  proof (rule map_cong)
    fix k
    assume "k \<in> set [0..<length B]"
    then have k: "k < length B" by simp
    show "(if k < max (Suc 0) (nat n) then sum_list (take (Suc k) B) else B ! k) =
          (if int k < n then sum_list (take (Suc k) B) else B ! k)"
    proof (cases "int k < n")
      case True
      then have "k < max (Suc 0) (nat n)" by linarith
      with True show ?thesis by simp
    next
      case False
      show ?thesis
      proof (cases "k = 0")
        case True
        then show ?thesis using k by (simp add: take_Suc_conv_app_nth)
      next
        case False
        with \<open>\<not> int k < n\<close> have "\<not> k < max (Suc 0) (nat n)" by linarith
        with \<open>\<not> int k < n\<close> show ?thesis by simp
      qed
    qed
  qed (rule refl)
  finally show ?thesis .
qed

theorem ma_fonction_prefix_sum_witness:
  "ma_fonction [1, 2, 3, 4] 4 = Inr [1, 3, 6, 10]"
proof -
  have "in_int (sum_list (take (Suc k) [1, 2, 3, 4]))" if "0 < k \<and> int k < 4" for k
  proof -
    from that have "k = 1 \<or> k = 2 \<or> k = 3" by auto
    then show ?thesis by (auto simp add: in_int_def)
  qed
  then have h: "\<forall>k. 0 < k \<and> int k < 4 \<longrightarrow> in_int (sum_list (take (Suc k) [1, 2, 3, 4]))"
    by blast
  show ?thesis
    using ma_fonction_prefix_sum [of 4 "[1, 2, 3, 4]", OF _ h]
    by (simp add: upt_rec)
qed

lemma ma_fonction_loop_frame:
  "ma_fonction_loop B n i = Inr B' \<Longrightarrow>
   length B' = length B \<and> (\<forall>k. k < i \<or> n \<le> int k \<longrightarrow> B' ! k = B ! k)"
proof (induction B n i rule: ma_fonction_loop.induct)
  case (1 B n i)
  show ?case
  proof (cases "int i < n")
    case False
    with "1.prems" show ?thesis
      by (simp add: ma_fonction_loop.simps [of B n i])
  next
    case True
    let ?v = "B ! i + B ! (i - 1)"
    have unfold: "ma_fonction_loop B n i =
        (if 0 < i \<and> i < length B
         then (if in_int ?v then ma_fonction_loop (B[i := ?v]) n (Suc i) else Inl SignedOverflow)
         else Inl OutOfBounds)"
      using True by (subst ma_fonction_loop.simps) (simp add: Let_def)
    have g: "0 < i \<and> i < length B"
      using "1.prems" unfolding unfold by (simp split: if_splits)
    have ok: "in_int ?v"
      using "1.prems" g unfolding unfold by (simp split: if_splits)
    have rec: "ma_fonction_loop (B[i := ?v]) n (Suc i) = Inr B'"
      using "1.prems" g ok unfolding unfold by simp
    from "1.IH" [OF True g refl ok rec]
    have ih: "length B' = length (B[i := ?v])"
      "\<forall>k. k < Suc i \<or> n \<le> int k \<longrightarrow> B' ! k = B[i := ?v] ! k"
      by auto
    have "B' ! k = B ! k" if "k < i \<or> n \<le> int k" for k
    proof -
      from that True have "k \<noteq> i" by auto
      moreover from that have "k < Suc i \<or> n \<le> int k" by auto
      then have "B' ! k = B[i := ?v] ! k" using ih(2) by blast
      ultimately show ?thesis by simp
    qed
    with ih(1) show ?thesis by simp
  qed
qed

text \<open>
  C10. The prefix sum writes to the indices from 1 to \<open>n - 1\<close> only: for \<open>n \<le> 1\<close> the call
  returns the array as it was, and whenever a call returns, the array has kept its length,
  its element 0 and every element at an index from \<open>n\<close> on.
\<close>

theorem ma_fonction_frame:
  "(n \<le> 1 \<longrightarrow> ma_fonction B n = Inr B) \<and>
   (ma_fonction B n = Inr B' \<longrightarrow>
      length B' = length B \<and> B' ! 0 = B ! 0 \<and> (\<forall>k. n \<le> int k \<longrightarrow> B' ! k = B ! k))"
proof (intro conjI impI)
  assume "n \<le> 1"
  then show "ma_fonction B n = Inr B"
    by (simp add: ma_fonction_def ma_fonction_loop.simps [of B n 1])
next
  assume r: "ma_fonction B n = Inr B'"
  then have "ma_fonction_loop B n 1 = Inr B'" by (simp add: ma_fonction_def)
  from ma_fonction_loop_frame [OF this]
  show "length B' = length B" "B' ! 0 = B ! 0" "\<forall>k. n \<le> int k \<longrightarrow> B' ! k = B ! k"
    by auto
qed

theorem ma_fonction_frame_witness:
  "ma_fonction [1, 2, 3, 4] 3 = Inr [1, 3, 6, 4] \<and>
   length [1, 3, 6, 4 :: int] = length [1, 2, 3, 4 :: int] \<and>
   [1, 3, 6, 4 :: int] ! 0 = [1, 2, 3, 4] ! 0 \<and>
   [1, 3, 6, 4 :: int] ! 3 = [1, 2, 3, 4] ! 3 \<and>
   ma_fonction [5, 7] 1 = Inr [5, 7]"
proof -
  have e: "ma_fonction [1, 2, 3, 4] 3 = Inr [1, 3, 6, 4]"
    by code_simp
  from ma_fonction_frame [of 3 "[1, 2, 3, 4]" "[1, 3, 6, 4]"] e
    ma_fonction_frame [of 1 "[5, 7]" "[5, 7]"]
  show ?thesis by simp
qed

section \<open>The two polynomial evaluations\<close>

text \<open>
  C9. For \<open>n = 0\<close> neither loop runs: both functions return 0, for every array and
  every \<open>alpha\<close>.
\<close>

theorem empty_polynomial:
  "ma_fonction_naive p 0 alpha = Inr 0 \<and> ma_fonction_horner p 0 alpha = Inr 0"
  by (simp add: ma_fonction_naive_def ma_fonction_horner_def
      ma_fonction_naive_loop.simps [of p 0 alpha 0 0]
      ma_fonction_horner_loop.simps [of p 0 alpha 1 0])

lemma poly_eval_sum: "poly_eval p x = (\<Sum>i<length p. p ! i * x ^ i)"
proof (induction p)
  case Nil
  then show ?case by simp
next
  case (Cons c cs)
  have "(\<Sum>i<Suc (length cs). (c # cs) ! i * x ^ i) = c + (\<Sum>i<length cs. cs ! i * x ^ Suc i)"
    by (subst sum.lessThan_Suc_shift) simp
  also have "(\<Sum>i<length cs. cs ! i * x ^ Suc i) = (\<Sum>i<length cs. x * (cs ! i * x ^ i))"
    by (rule sum.cong) simp_all
  also have "\<dots> = x * (\<Sum>i<length cs. cs ! i * x ^ i)"
    by (simp only: sum_distrib_left)
  finally show ?case using Cons.IH by simp
qed

text \<open>
  The naive evaluation returns the sum of the \<open>p[i] * alpha^i\<close> whenever the coefficients
  and the partial sums are \<open>int\<close>s and the powers and the products are integers that a
  \<open>double\<close> holds exactly.
\<close>

lemma sval_of_int_abs: "sval (z < 0) (of_int \<bar>z\<bar>) = of_int z"
  by (simp add: sval_def)

lemma pow_exact:
  "\<bar>alpha ^ i\<bar> \<le> 2 ^ 53 \<Longrightarrow> pow alpha i = Finite (alpha ^ i < 0) (of_int \<bar>alpha ^ i\<bar>)"
  unfolding pow_def by (rule fround_of_int) simp_all

lemma naive_step:
  assumes "\<bar>res\<bar> \<le> 2 ^ 53" "\<bar>c\<bar> \<le> 2 ^ 53" "\<bar>a\<bar> \<le> 2 ^ 53" "\<bar>c * a\<bar> \<le> 2 ^ 53"
    and "\<bar>res + c * a\<bar> \<le> 2 ^ 53"
  shows "trunc (fadd (double_of_int res) (fmul (double_of_int c) (Finite (a < 0) (of_int \<bar>a\<bar>))))
           = res + c * a"
    and "fits_int (fadd (double_of_int res) (fmul (double_of_int c) (Finite (a < 0) (of_int \<bar>a\<bar>))))
           = in_int (res + c * a)"
proof -
  define sg where "sg = ((c < 0) \<noteq> (a < 0))"
  have prod: "fmul (double_of_int c) (Finite (a < 0) (of_int \<bar>a\<bar>)) = Finite sg (of_int \<bar>c * a\<bar>)"
  proof -
    have "(of_int \<bar>c\<bar> :: rat) * of_int \<bar>a\<bar> = of_int \<bar>c * a\<bar>"
      by (simp add: abs_mult)
    then have "fmul (double_of_int c) (Finite (a < 0) (of_int \<bar>a\<bar>)) = fround sg (of_int \<bar>c * a\<bar>)"
      unfolding double_of_int_exact [OF assms(2)] sg_def by simp
    also have "\<dots> = Finite sg (of_int \<bar>c * a\<bar>)"
      by (rule fround_of_int) (use assms(4) in simp_all)
    finally show ?thesis .
  qed
  have sv: "sval sg (of_int \<bar>c * a\<bar>) = of_int (c * a)"
  proof (cases "c * a = 0")
    case True
    show ?thesis unfolding True by (simp add: sval_def)
  next
    case False
    then have "sg = (c * a < 0)"
      unfolding sg_def by (auto simp add: mult_less_0_iff)
    then show ?thesis by (simp only: sval_of_int_abs)
  qed
  define z where "z = res + c * a"
  define r :: rat where "r = of_int z"
  have sum: "sval (res < 0) (of_int \<bar>res\<bar>) + sval sg (of_int \<bar>c * a\<bar>) = r"
    unfolding sv sval_of_int_abs r_def z_def by simp
  have res: "fadd (double_of_int res) (fmul (double_of_int c) (Finite (a < 0) (of_int \<bar>a\<bar>)))
      = (if r = 0 then Finite (res < 0 \<and> sg) 0 else fround (r < 0) \<bar>r\<bar>)"
    unfolding prod double_of_int_exact [OF assms(1)] fadd.simps sum Let_def by (rule refl)
  have rn: "fround (r < 0) \<bar>r\<bar> = Finite (r < 0) (of_int \<bar>z\<bar>)"
  proof -
    have "\<bar>r\<bar> = of_int \<bar>z\<bar>" by (simp add: r_def)
    then show ?thesis
      using fround_of_int [of "\<bar>z\<bar>" "r < 0"] assms(5) by (simp add: z_def)
  qed
  have r0: "r = 0 \<longleftrightarrow> z = 0" "r < 0 \<longleftrightarrow> z < 0"
    unfolding r_def by (rule of_int_eq_0_iff, rule of_int_less_0_iff)
  have "trunc (if r = 0 then Finite (res < 0 \<and> sg) 0 else Finite (r < 0) (of_int \<bar>z\<bar>)) = z"
    using r0 by auto
  then show "trunc (fadd (double_of_int res) (fmul (double_of_int c) (Finite (a < 0) (of_int \<bar>a\<bar>))))
           = res + c * a"
    unfolding res rn z_def .
  have "fits_int (if r = 0 then Finite (res < 0 \<and> sg) 0 else Finite (r < 0) (of_int \<bar>z\<bar>))
      = in_int z"
    using r0 by (auto simp add: in_int_def)
  then show "fits_int (fadd (double_of_int res) (fmul (double_of_int c) (Finite (a < 0) (of_int \<bar>a\<bar>))))
           = in_int (res + c * a)"
    unfolding res rn z_def .
qed

lemma in_int_abs: "in_int z \<Longrightarrow> \<bar>z\<bar> \<le> 2 ^ 53"
  by (simp add: in_int_def abs_le_iff)

lemma ma_fonction_naive_loop_value:
  assumes "n = int (length p)" "i \<le> length p"
    and "\<forall>j<length p. in_int (p ! j) \<and> \<bar>alpha ^ j\<bar> \<le> 2 ^ 53 \<and> \<bar>p ! j * alpha ^ j\<bar> \<le> 2 ^ 53
            \<and> in_int (\<Sum>k\<le>j. p ! k * alpha ^ k)"
    and "in_int res" "res = (\<Sum>k<i. p ! k * alpha ^ k)"
  shows "ma_fonction_naive_loop p n alpha i res = Inr (\<Sum>k<length p. p ! k * alpha ^ k)"
  using assms(2,4,5)
proof (induction "length p - i" arbitrary: i res)
  case 0
  then have "i = length p" by simp
  with 0 assms(1) show ?case
    by (simp add: ma_fonction_naive_loop.simps [of p n alpha i res])
next
  case (Suc d)
  then have lt: "i < length p" by simp
  let ?t = "p ! i * alpha ^ i"
  from assms(3) lt have h: "in_int (p ! i)" "\<bar>alpha ^ i\<bar> \<le> 2 ^ 53" "\<bar>?t\<bar> \<le> 2 ^ 53"
    "in_int (\<Sum>k\<le>i. p ! k * alpha ^ k)"
    by auto
  have next_sum: "res + ?t = (\<Sum>k<Suc i. p ! k * alpha ^ k)"
    using Suc.prems(3) by simp
  have same: "(\<Sum>k\<le>i. p ! k * alpha ^ k) = (\<Sum>k<Suc i. p ! k * alpha ^ k)"
    by (simp add: lessThan_Suc_atMost)
  have ok: "in_int (res + ?t)"
    using h(4) unfolding same next_sum .
  let ?d = "fadd (double_of_int res) (fmul (double_of_int (p ! i)) (pow alpha i))"
  have b: "\<bar>res\<bar> \<le> 2 ^ 53" "\<bar>p ! i\<bar> \<le> 2 ^ 53" "\<bar>res + ?t\<bar> \<le> 2 ^ 53"
    by (rule in_int_abs [OF Suc.prems(2)], rule in_int_abs [OF h(1)], rule in_int_abs [OF ok])
  have st: "trunc ?d = res + ?t" "fits_int ?d = in_int (res + ?t)"
    unfolding pow_exact [OF h(2)]
    by (rule naive_step(1) [OF b(1) b(2) h(2) h(3) b(3)],
        rule naive_step(2) [OF b(1) b(2) h(2) h(3) b(3)])
  have "ma_fonction_naive_loop p n alpha i res
      = ma_fonction_naive_loop p n alpha (Suc i) (res + ?t)"
    using lt assms(1) ok
    by (subst ma_fonction_naive_loop.simps) (simp add: Let_def st)
  also have "\<dots> = Inr (\<Sum>k<length p. p ! k * alpha ^ k)"
  proof (rule Suc.hyps(1))
    show "d = length p - Suc i" using Suc.hyps(2) by simp
    show "Suc i \<le> length p" using lt by simp
    show "in_int (res + ?t)" by (rule ok)
    show "res + ?t = (\<Sum>k<Suc i. p ! k * alpha ^ k)" by (rule next_sum)
  qed
  finally show ?case .
qed

lemma ma_fonction_naive_value:
  assumes "\<forall>j<length p. in_int (p ! j) \<and> \<bar>alpha ^ j\<bar> \<le> 2 ^ 53 \<and> \<bar>p ! j * alpha ^ j\<bar> \<le> 2 ^ 53
            \<and> in_int (\<Sum>k\<le>j. p ! k * alpha ^ k)"
  shows "ma_fonction_naive p (int (length p)) alpha = Inr (\<Sum>k<length p. p ! k * alpha ^ k)"
  unfolding ma_fonction_naive_def
  by (rule ma_fonction_naive_loop_value [OF refl _ assms]) (simp_all add: in_int_def)

text \<open>
  Each iteration of \<open>ma_fonction_horner\<close> adds \<open>res * alpha + p[n-i]\<close> to \<open>res\<close>, which
  multiplies the running value by \<open>alpha + 1\<close>: when it returns, the function has
  evaluated the polynomial at \<open>alpha + 1\<close>.
\<close>

lemma ma_fonction_horner_loop_value:
  assumes "ma_fonction_horner_loop p n alpha i res = Inr r"
    and "n = int (length p)" "0 < i" "res = poly_eval (drop (Suc (length p) - i) p) (alpha + 1)"
  shows "r = poly_eval p (alpha + 1)"
  using assms
proof (induction p n alpha i res rule: ma_fonction_horner_loop.induct)
  case (1 p n alpha i res)
  show ?case
  proof (cases "int i \<le> n")
    case False
    then have "Suc (length p) - i = 0" using "1.prems"(2) by simp
    with False "1.prems" show ?thesis
      by (simp add: ma_fonction_horner_loop.simps [of p n alpha i res])
  next
    case True
    let ?k = "nat (n - int i)"
    let ?m = "res * alpha" 
    let ?t = "?m + p ! ?k" 
    let ?r = "res + ?t"
    have unfold: "ma_fonction_horner_loop p n alpha i res =
        (if ?k < length p
         then (if in_int ?m \<and> in_int ?t \<and> in_int ?r \<and> in_int (int i + 1)
               then ma_fonction_horner_loop p n alpha (Suc i) ?r else Inl SignedOverflow)
         else Inl OutOfBounds)"
      using True by (subst ma_fonction_horner_loop.simps) (simp add: Let_def)
    have g: "?k < length p"
      using "1.prems"(1) unfolding unfold by (simp split: if_splits)
    have ok: "in_int ?m \<and> in_int ?t \<and> in_int ?r \<and> in_int (int i + 1)"
      using "1.prems"(1) g unfolding unfold by (simp split: if_splits)
    have rec: "ma_fonction_horner_loop p n alpha (Suc i) ?r = Inr r"
      using "1.prems"(1) g ok unfolding unfold by simp
    have k: "?k = length p - i" "Suc (length p) - i = Suc (length p - i)" "i \<le> length p"
      using True "1.prems"(2) by auto
    have "drop (length p - i) p = p ! (length p - i) # drop (Suc (length p - i)) p"
      using g k by (simp add: Cons_nth_drop_Suc)
    then have "poly_eval (drop (length p - i) p) (alpha + 1) = ?r"
      using "1.prems"(4) k by (simp add: algebra_simps)
    then have "?r = poly_eval (drop (Suc (length p) - Suc i) p) (alpha + 1)"
      by simp
    from "1.IH" [OF True g refl refl refl ok rec "1.prems"(2) _ this]
    show ?thesis by simp
  qed
qed

lemma ma_fonction_horner_value:
  assumes "ma_fonction_horner p (int (length p)) alpha = Inr r"
  shows "r = (\<Sum>i<length p. p ! i * (alpha + 1) ^ i)"
proof -
  from assms have "ma_fonction_horner_loop p (int (length p)) alpha 1 0 = Inr r"
    by (simp add: ma_fonction_horner_def)
  then have "r = poly_eval p (alpha + 1)"
    by (rule ma_fonction_horner_loop_value) simp_all
  then show ?thesis by (simp add: poly_eval_sum)
qed

text \<open>
  C1. On the coefficients \<open>[1,2,3]\<close> and \<open>alpha = 2\<close> the naive evaluation returns
  \<open>1 + 2*2 + 3*4 = 17\<close>, and \<open>ma_fonction_horner\<close> returns 34, the value of the
  polynomial at 3.
\<close>

theorem horner_differs_from_naive:
  "ma_fonction_naive [1, 2, 3] 3 2 = Inr 17 \<and> ma_fonction_horner [1, 2, 3] 3 2 = Inr 34"
proof
  show "ma_fonction_naive [1, 2, 3] 3 2 = Inr 17"
    by (simp add: ma_fonction_naive_def ma_fonction_naive_loop.simps eval_simps)
  show "ma_fonction_horner [1, 2, 3] 3 2 = Inr 34"
    by code_simp
qed

section \<open>The drivers\<close>

text \<open>
  C8. Both drivers test \<open>argc < 2\<close>, so the usage message and the status \<open>-1\<close> come only
  when no argument at all is given. With two arguments the polynomial driver passes the
  null pointer \<open>argv[3]\<close> to \<open>atoi\<close>; with one the prefix-sum driver passes it the null
  pointer \<open>argv[2]\<close>.
\<close>

theorem drivers_read_missing_arguments:
  "main_exo6 [''./tp2'', ''1'', ''30''] = Inl NullPointer \<and>
   main_exo5 [''./tp2'', ''0''] = Inl NullPointer"
  by (simp add: main_exo6_def main_exo5_def atoi_arg_def arg_def atoi_def is_space_def
      is_digit_def in_int_def)

lemma drivers_usage:
  "length argv < 2 \<Longrightarrow> main_exo5 argv = Inr (Usage usage_exo5 (- 1))"
  "length argv < 2 \<Longrightarrow> main_exo6 argv = Inr (Usage usage_exo6 (- 1))"
  by (simp_all add: main_exo5_def main_exo6_def)

lemma drivers_no_usage:
  "2 \<le> length argv \<Longrightarrow> main_exo5 argv \<noteq> Inr (Usage msg status)"
  "2 \<le> length argv \<Longrightarrow> main_exo6 argv \<noteq> Inr (Usage msg status)"
  by (auto simp add: main_exo5_def main_exo6_def split: sum.splits)

end
